theory Spec2Isabelle
  imports Complex_Main
begin

section \<open>Data model\<close>

text \<open>
  The program (\<^verbatim>\<open>merklificator.py\<close>) works on sparse sets of non-negative integers
  (\<^verbatim>\<open>RoaringBitmap\<close>) and on Python integers. A bitmap is modelled as a set of
  natural numbers (every bitmap the program builds is finite, which the theorems
  assume of their inputs), Python's unbounded integers as \<open>int\<close>, and every exception
  the code can raise as a value of the type \<open>error\<close>.
\<close>

datatype error =
    ValueError          \<comment> \<open>\<^verbatim>\<open>math.log\<close> of a number that is not positive\<close>
  | ZeroDivisionError   \<comment> \<open>division by zero\<close>
  | AssertionError      \<comment> \<open>a failed \<^verbatim>\<open>assert\<close>\<close>
  | NameError           \<comment> \<open>a local variable read before it is bound (\<^verbatim>\<open>UnboundLocalError\<close>,
                            a subclass of \<^verbatim>\<open>NameError\<close>)\<close>
  | EmptyBitmapError    \<comment> \<open>\<^verbatim>\<open>max()\<close> of an empty bitmap\<close>

subsection \<open>The bitmap operations the program uses\<close>

text \<open>
  Modelled from the spec: the \<^verbatim>\<open>roaringbitmap\<close> library is imported by the program and is
  not part of it. Its operations follow the capability set of the specification's
  SparseIndexSet: \<open>max_element\<close> is an error on the empty set, \<open>clamp\<close> extracts the
  elements of a half-open range, \<open>len\<close> is the cardinality, and a bitmap can be built
  from a list of integers.
\<close>

definition rb_max :: "nat set \<Rightarrow> error + nat" where
  "rb_max m = (if m = {} then Inl EmptyBitmapError else Inr (Max m))"

definition rb_clamp :: "nat set \<Rightarrow> int \<Rightarrow> int \<Rightarrow> nat set" where
  "rb_clamp m start stop = Set.filter (\<lambda>x. start \<le> int x \<and> int x < stop) m"

definition rb_len :: "nat set \<Rightarrow> int" where
  "rb_len m = int (card m)"

definition RoaringBitmap :: "nat list \<Rightarrow> nat set" where
  "RoaringBitmap xs = set xs"

subsection \<open>Python arithmetic\<close>

text \<open>
  \<^verbatim>\<open>range(0, n)\<close> is empty when \<open>n \<le> 0\<close>; its elements are never negative.
  \<^verbatim>\<open>a // b\<close> is floor division and raises on a zero divisor.
  \<^verbatim>\<open>math.ceil(x / y)\<close> is the ceiling of the quotient; the program computes the quotient
  in double precision, which yields the exact ceiling as long as the operands stay
  below \<open>2^53\<close>. That holds throughout the program's domain: bitmap elements are below
  \<open>2^32\<close> and \<open>max_theoretical_chunks\<close> is at most \<^verbatim>\<open>MAXCODESIZE\<close>. The model takes
  the exact ceiling.
\<close>

definition py_range :: "int \<Rightarrow> nat list" where
  "py_range n = [0..<nat n]"

definition floor_div :: "int \<Rightarrow> int \<Rightarrow> error + int" where
  "floor_div x y = (if y = 0 then Inl ZeroDivisionError else Inr (x div y))"

definition ceil_div :: "int \<Rightarrow> int \<Rightarrow> error + int" where
  "ceil_div x y = (if y = 0 then Inl ZeroDivisionError else Inr (- ((- x) div y)))"

section \<open>The tree hash estimator: \<^verbatim>\<open>merklize\<close>\<close>

text \<open>
  The variables of the \<^verbatim>\<open>while\<close> loop. \<open>level_map\<close> is the variable \<^verbatim>\<open>map\<close>;
  \<open>loop_p\<close> is the variable \<^verbatim>\<open>p\<close> of the inner \<^verbatim>\<open>for\<close> loop, which is unbound
  (\<open>None\<close>) until that loop has run once and is read after the \<^verbatim>\<open>while\<close> loop.
\<close>

record loop_state =
  theoretical_siblings :: int
  level_map :: "nat set"
  num_hashes :: int
  current_level :: int
  loop_p :: "nat option"

text \<open>
  Line 81: \<^verbatim>\<open>num_levels = math.log(max_theoretical_chunks) / math.log(arity)\<close>. The value
  is never used; what remains of the line is that it raises when an argument is not
  positive, and when \<open>arity = 1\<close> (the divisor is \<open>0.0\<close>).
\<close>

definition num_levels_error :: "int \<Rightarrow> int \<Rightarrow> error option" where
  "num_levels_error max_theoretical_chunks arity =
     (if max_theoretical_chunks \<le> 0 then Some ValueError
      else if arity \<le> 0 then Some ValueError
      else if arity = 1 then Some ZeroDivisionError
      else None)"

text \<open>
  The body of the \<^verbatim>\<open>for\<close> loop over the candidate parents (lines 106 to 139), on the
  pair of \<^verbatim>\<open>parents\<close> and \<^verbatim>\<open>num_hashes\<close>. The lines written to the dot file do not
  feed back into the computation and are left out.
\<close>

definition check_parent ::
  "int \<Rightarrow> int \<Rightarrow> nat set \<Rightarrow> int \<Rightarrow> nat \<Rightarrow> nat list \<times> int \<Rightarrow> error + nat list \<times> int" where
  "check_parent arity theoretical_sibs m max_actual_parents p acc =
     (let siblings_start = int p * arity;
          siblings_end = min ((int p + 1) * arity) theoretical_sibs;
          overlap = rb_clamp m siblings_start siblings_end;
          lo = rb_len overlap
      in if lo = 0 then Inr acc
         else if \<not> int p < max_actual_parents then Inl AssertionError
         else Inr (fst acc @ [p], snd acc + (arity - lo)))"

fun for_parents ::
  "int \<Rightarrow> int \<Rightarrow> nat set \<Rightarrow> int \<Rightarrow> nat list \<Rightarrow> nat list \<times> int \<Rightarrow> error + nat list \<times> int" where
  "for_parents arity theoretical_sibs m max_actual_parents [] acc = Inr acc"
| "for_parents arity theoretical_sibs m max_actual_parents (p # ps) acc =
     (case check_parent arity theoretical_sibs m max_actual_parents p acc of
        Inl e \<Rightarrow> Inl e
      | Inr acc' \<Rightarrow> for_parents arity theoretical_sibs m max_actual_parents ps acc')"

text \<open>The body of the \<^verbatim>\<open>while\<close> loop (lines 95 to 147): one level of the tree.\<close>

definition level_body :: "int \<Rightarrow> string option \<Rightarrow> loop_state \<Rightarrow> error + loop_state" where
  "level_body arity filename st =
     (case rb_max (level_map st) of
        Inl e \<Rightarrow> Inl e
      | Inr mx \<Rightarrow>
     (case ceil_div (int mx + 1) arity of
        Inl e \<Rightarrow> Inl e
      | Inr max_actual_parents \<Rightarrow>
     (case ceil_div (theoretical_siblings st) arity of
        Inl e \<Rightarrow> Inl e
      | Inr theoretical_parents \<Rightarrow>
     (let parents_to_check =
            (if filename \<noteq> None then theoretical_parents else max_actual_parents);
          ps = py_range parents_to_check
      in case for_parents arity (theoretical_siblings st) (level_map st)
                max_actual_parents ps ([], num_hashes st) of
           Inl e \<Rightarrow> Inl e
         | Inr acc \<Rightarrow>
             Inr \<lparr>theoretical_siblings = theoretical_parents,
                  level_map = RoaringBitmap (fst acc),
                  num_hashes = snd acc,
                  current_level = current_level st + 1,
                  loop_p = (if ps = [] then loop_p st else Some (last ps))\<rparr>))))"

text \<open>
  The \<^verbatim>\<open>while\<close> loop (line 88). Nothing in the loop itself bounds the number of its
  iterations, so it is a partial function: \<open>None\<close> is a run that never ends.
\<close>

partial_function (option) while_levels ::
  "int \<Rightarrow> string option \<Rightarrow> loop_state \<Rightarrow> (error + loop_state) option" where
  "while_levels arity filename st =
     (if theoretical_siblings st \<ge> arity then
        (case level_body arity filename st of
           Inl e \<Rightarrow> Some (Inl e)
         | Inr st' \<Rightarrow> while_levels arity filename st')
      else Some (Inr st))"

definition initial_state :: "nat set \<Rightarrow> int \<Rightarrow> loop_state" where
  "initial_state chunkmap max_theoretical_chunks =
     \<lparr>theoretical_siblings = max_theoretical_chunks,
      level_map = chunkmap,
      num_hashes = 0,
      current_level = 0,
      loop_p = None\<rparr>"

text \<open>
  \<^verbatim>\<open>merklize(chunkmap, arity, max_theoretical_chunks, filename)\<close>. After the loop, line 148
  builds the label of the root from \<^verbatim>\<open>current_level\<close> and \<^verbatim>\<open>p\<close>, whether or not a
  file is written. Opening and writing the dot file are input and output and are not
  modelled; \<open>filename\<close> remains for its effect on the parents that are scanned.
\<close>

definition merklize ::
  "nat set \<Rightarrow> int \<Rightarrow> int \<Rightarrow> string option \<Rightarrow> (error + int) option" where
  "merklize chunkmap arity max_theoretical_chunks filename =
     (case num_levels_error max_theoretical_chunks arity of
        Some e \<Rightarrow> Some (Inl e)
      | None \<Rightarrow>
     (case rb_max chunkmap of
        Inl e \<Rightarrow> Some (Inl e)
      | Inr mx \<Rightarrow>
          if \<not> int mx < max_theoretical_chunks then Some (Inl AssertionError)
          else
            (case while_levels arity filename
                    (initial_state chunkmap max_theoretical_chunks) of
               None \<Rightarrow> None
             | Some (Inl e) \<Rightarrow> Some (Inl e)
             | Some (Inr st) \<Rightarrow>
                 (case loop_p st of
                    None \<Rightarrow> Some (Inl NameError)
                  | Some p \<Rightarrow> Some (Inr (num_hashes st))))))"

section \<open>The chunker: \<^verbatim>\<open>chunkmap_from_bytemap\<close>\<close>

text \<open>The \<^verbatim>\<open>for\<close> loop of the general path (lines 162 to 174), on \<^verbatim>\<open>chunkmap\<close>.\<close>

fun for_chunks :: "nat set \<Rightarrow> int \<Rightarrow> nat list \<Rightarrow> nat set \<Rightarrow> nat set" where
  "for_chunks bytemap chunk_size [] chunkmap = chunkmap"
| "for_chunks bytemap chunk_size (c # cs) chunkmap =
     (let chunk_start = int c * chunk_size;
          chunk_stop = (int c + 1) * chunk_size;
          overlap = rb_clamp bytemap chunk_start chunk_stop
      in for_chunks bytemap chunk_size cs
           (if rb_len overlap \<noteq> 0 then insert c chunkmap else chunkmap))"

definition chunkmap_from_bytemap :: "nat set \<Rightarrow> int \<Rightarrow> error + nat set" where
  "chunkmap_from_bytemap bytemap chunk_size =
     (case rb_max bytemap of
        Inl e \<Rightarrow> Inl e
      | Inr mx \<Rightarrow>
     (case floor_div (int mx) chunk_size of
        Inl e \<Rightarrow> Inl e
      | Inr max_contract_chunk \<Rightarrow>
          if chunk_size = 1 then Inr bytemap
          else Inr (for_chunks bytemap chunk_size (py_range (max_contract_chunk + 1)) {})))"

subsection \<open>The sanity check of \<^verbatim>\<open>main\<close>\<close>

text \<open>
  Lines 314 and 325 to 330 of \<^verbatim>\<open>main\<close>: after chunking, the run reports an error for a
  contract when \<^verbatim>\<open>chunked_bytes < executed_bytes\<close>.
\<close>

definition sanity_check_error :: "nat set \<Rightarrow> nat set \<Rightarrow> int \<Rightarrow> bool" where
  "sanity_check_error bytemap chunkmap chunk_size =
     (let executed_bytes = rb_len bytemap;
          num_chunks = rb_len chunkmap;
          chunked_bytes = num_chunks * chunk_size
      in chunked_bytes < executed_bytes)"

section \<open>Definitions for the proofs\<close>

text \<open>
  The \<^verbatim>\<open>while\<close> loop cut off after \<open>k\<close> iterations: the state in which the loop is after
  \<open>k\<close> levels (or in which it has stopped before). It runs the same body under the same
  guard; lemma \<open>while_levels_run_levels\<close> shows that the loop is one of these runs.
\<close>

fun run_levels :: "nat \<Rightarrow> int \<Rightarrow> string option \<Rightarrow> loop_state \<Rightarrow> error + loop_state" where
  "run_levels 0 arity filename st = Inr st"
| "run_levels (Suc k) arity filename st =
     (if theoretical_siblings st \<ge> arity then
        (case level_body arity filename st of
           Inl e \<Rightarrow> Inl e
         | Inr st' \<Rightarrow> run_levels k arity filename st')
      else Inr st)"

declare while_levels.simps [code]

text \<open>
  What one level computes, in closed form: the children of parent \<open>p\<close> that are present,
  the set of parents with a child present, and the hashes missing at the level.
\<close>

definition siblings_present :: "int \<Rightarrow> nat set \<Rightarrow> nat \<Rightarrow> nat set" where
  "siblings_present arity m p = {x \<in> m. int x div arity = int p}"

definition parents_of :: "int \<Rightarrow> nat set \<Rightarrow> nat set" where
  "parents_of arity m = (\<lambda>x. nat (int x div arity)) ` m"

definition level_hashes :: "int \<Rightarrow> nat set \<Rightarrow> int" where
  "level_hashes arity m = (\<Sum>p\<in>parents_of arity m. arity - int (card (siblings_present arity m p)))"

text \<open>
  The invariant of the \<^verbatim>\<open>while\<close> loop: the level set is a non-empty finite set whose
  maximum is below the theoretical width. The \<^verbatim>\<open>assert\<close> of line 82 establishes it.
\<close>

definition level_inv :: "loop_state \<Rightarrow> bool" where
  "level_inv st \<longleftrightarrow>
     finite (level_map st) \<and> level_map st \<noteq> {} \<and>
     int (Max (level_map st)) < theoretical_siblings st"

text \<open>
  The value of \<^verbatim>\<open>lo\<close> for parent \<open>p\<close>, the number of parents a level scans, and the state
  after a level that starts in a state satisfying the invariant.
\<close>

definition group_len :: "int \<Rightarrow> int \<Rightarrow> nat set \<Rightarrow> nat \<Rightarrow> int" where
  "group_len arity theoretical_sibs m p =
     rb_len (rb_clamp m (int p * arity) (min ((int p + 1) * arity) theoretical_sibs))"

definition scanned_parents :: "int \<Rightarrow> string option \<Rightarrow> loop_state \<Rightarrow> nat" where
  "scanned_parents a fn st =
     nat (if fn \<noteq> None then - ((- theoretical_siblings st) div a)
          else - ((- (int (Max (level_map st)) + 1)) div a))"

definition next_level :: "int \<Rightarrow> string option \<Rightarrow> loop_state \<Rightarrow> loop_state" where
  "next_level a fn st =
     \<lparr>theoretical_siblings = - ((- theoretical_siblings st) div a),
      level_map = parents_of a (level_map st),
      num_hashes = num_hashes st + level_hashes a (level_map st),
      current_level = current_level st + 1,
      loop_p = Some (scanned_parents a fn st - 1)\<rparr>"

text \<open>
  The number of levels of the tree: the ceiling of the logarithm of
  \<open>max_theoretical_chunks\<close> to the base \<open>arity\<close>.
\<close>

definition levels :: "int \<Rightarrow> int \<Rightarrow> nat" where
  "levels arity max_theoretical_chunks =
     nat \<lceil>log (of_int arity) (of_int max_theoretical_chunks)\<rceil>"

text \<open>
  Two loop states agree on everything but the value of \<^verbatim>\<open>p\<close>, which both have bound or
  both have unbound.
\<close>

definition observable :: "loop_state \<Rightarrow> int \<times> nat set \<times> int \<times> int" where
  "observable st = (theoretical_siblings st, level_map st, num_hashes st, current_level st)"

definition same_levels :: "loop_state \<Rightarrow> loop_state \<Rightarrow> bool" where
  "same_levels s1 s2 \<longleftrightarrow>
     observable s1 = observable s2 \<and> (loop_p s1 = None \<longleftrightarrow> loop_p s2 = None)"

text \<open>
  The bound carried through the loop: after \<open>j\<close> levels the width is at most
  \<open>a ^ (L - j)\<close> and the count is at most \<open>c * (a - 1) * j\<close>.
\<close>

definition hashes_bounded :: "int \<Rightarrow> nat \<Rightarrow> nat \<Rightarrow> loop_state \<Rightarrow> bool" where
  "hashes_bounded a L c s \<longleftrightarrow>
     (\<exists>j\<le>L. theoretical_siblings s \<le> a ^ (L - j) \<and> 0 \<le> num_hashes s \<and>
             num_hashes s \<le> int c * (a - 1) * int j \<and> card (level_map s) \<le> c)"

section \<open>One level of the tree\<close>

lemma rb_clamp_iff: "x \<in> rb_clamp m start stop \<longleftrightarrow> x \<in> m \<and> start \<le> int x \<and> int x < stop"
  by (simp add: rb_clamp_def)

lemma rb_clamp_subset: "rb_clamp m start stop \<subseteq> m"
  by (auto simp: rb_clamp_iff)

lemma rb_clamp_finite: "finite m \<Longrightarrow> finite (rb_clamp m start stop)"
  by (rule finite_subset [OF rb_clamp_subset])

lemma rb_len_zero_iff: "finite m \<Longrightarrow> rb_len m = 0 \<longleftrightarrow> m = {}"
  by (simp add: rb_len_def)

lemma for_parents_filter:
  assumes "\<forall>p\<in>set ps. group_len a T m p \<noteq> 0 \<longrightarrow> int p < mp"
  shows "for_parents a T m mp ps acc =
           Inr (fst acc @ filter (\<lambda>p. group_len a T m p \<noteq> 0) ps,
                snd acc + (\<Sum>p\<leftarrow>filter (\<lambda>p. group_len a T m p \<noteq> 0) ps. a - group_len a T m p))"
  using assms
proof (induction ps arbitrary: acc)
  case Nil
  then show ?case by simp
next
  case (Cons p ps)
  then show ?case
    by (simp add: check_parent_def group_len_def Let_def)
qed

lemma div_eq_iff_range:
  fixes a x p :: int
  assumes "0 < a"
  shows "x div a = p \<longleftrightarrow> p * a \<le> x \<and> x < (p + 1) * a"
proof
  assume "x div a = p"
  then show "p * a \<le> x \<and> x < (p + 1) * a"
    using assms
    by (metis add.commute div_mult_mod_eq distrib_right mult.commute mult_1 
          add_less_cancel_left pos_mod_bound pos_mod_sign le_add_same_cancel1)
next
  assume h: "p * a \<le> x \<and> x < (p + 1) * a"
  show "x div a = p"
  proof (rule int_div_pos_eq [where r = "x - p * a"])
    show "x = a * p + (x - p * a)" by (simp add: algebra_simps)
    show "0 \<le> x - p * a" using h by simp
    show "x - p * a < a" using h by (simp add: algebra_simps)
  qed
qed

lemma group_eq_siblings_present:
  assumes "0 < a" "\<forall>x\<in>m. int x < T"
  shows "rb_clamp m (int p * a) (min ((int p + 1) * a) T) = siblings_present a m p"
  using assms by (auto simp: rb_clamp_iff siblings_present_def div_eq_iff_range)

lemma group_len_eq:
  assumes "0 < a" "\<forall>x\<in>m. int x < T"
  shows "group_len a T m p = int (card (siblings_present a m p))"
  by (simp add: group_len_def rb_len_def group_eq_siblings_present [OF assms])

lemma siblings_present_finite: "finite m \<Longrightarrow> finite (siblings_present a m p)"
  by (simp add: siblings_present_def)

lemma siblings_present_nonempty_iff:
  assumes "0 < a"
  shows "siblings_present a m p \<noteq> {} \<longleftrightarrow> p \<in> parents_of a m"
proof
  assume "siblings_present a m p \<noteq> {}"
  then obtain x where "x \<in> m" "int x div a = int p"
    by (auto simp: siblings_present_def)
  then show "p \<in> parents_of a m"
    by (force simp: parents_of_def image_iff)
next
  assume "p \<in> parents_of a m"
  then obtain x where x: "x \<in> m" "p = nat (int x div a)"
    by (auto simp: parents_of_def)
  have "0 \<le> int x div a" using assms by (simp add: pos_imp_zdiv_nonneg_iff)
  with x show "siblings_present a m p \<noteq> {}"
    by (auto simp: siblings_present_def)
qed

lemma present_iff:
  assumes "0 < a" "\<forall>x\<in>m. int x < T" "finite m"
  shows "group_len a T m p \<noteq> 0 \<longleftrightarrow> p \<in> parents_of a m"
  using siblings_present_nonempty_iff [OF assms(1), of m p] siblings_present_finite [OF assms(3), of a p]
  by (simp add: group_len_eq [OF assms(1,2)])

lemma ceil_gt_div:
  fixes a M :: int
  assumes "0 < a"
  shows "M div a < - ((- (M + 1)) div a)"
proof -
  let ?q = "- ((- (M + 1)) div a)"
  have "(- (M + 1)) div a * a \<le> - (M + 1)"
    using assms by (metis div_mult_mod_eq pos_mod_sign add.commute le_add_same_cancel2 mult.commute le_add_same_cancel1)
  then have 1: "M + 1 \<le> ?q * a" by simp
  have 2: "M div a * a \<le> M"
    using assms by (metis div_mult_mod_eq pos_mod_sign add.commute le_add_same_cancel2 mult.commute le_add_same_cancel1)
  from 1 2 have "M div a * a < ?q * a" by linarith
  then show ?thesis
    using assms mult_less_cancel_right_pos [of a "M div a" ?q] by simp
qed

lemma ceil_div_mono:
  fixes a x y :: int
  assumes "0 < a" "x \<le> y"
  shows "- ((- x) div a) \<le> - ((- y) div a)"
  using assms by (simp add: zdiv_mono1)

lemma parents_lt_max_actual:
  assumes "0 < a" "finite m" "p \<in> parents_of a m"
  shows "int p < - ((- (int (Max m) + 1)) div a)"
proof -
  from assms(3) obtain x where x: "x \<in> m" "p = nat (int x div a)"
    by (auto simp: parents_of_def)
  have nn: "0 \<le> int x div a" using assms(1) by (simp add: pos_imp_zdiv_nonneg_iff)
  have "x \<le> Max m" using x(1) assms(2) by simp
  then have "int x div a \<le> int (Max m) div a"
    using assms(1) by (simp add: zdiv_mono1)
  also have "\<dots> < - ((- (int (Max m) + 1)) div a)"
    by (rule ceil_gt_div [OF assms(1)])
  finally show ?thesis using x(2) nn by simp
qed

lemma level_inv_bound: "level_inv st \<Longrightarrow> \<forall>x\<in>level_map st. int x < theoretical_siblings st"
proof
  fix x assume inv: "level_inv st" and x: "x \<in> level_map st"
  then have "x \<le> Max (level_map st)" by (simp add: level_inv_def)
  with inv show "int x < theoretical_siblings st" by (simp add: level_inv_def)
qed

lemma filter_upt_parents:
  assumes "0 < a" "finite m" "- ((- (int (Max m) + 1)) div a) \<le> int n"
  shows "set (filter (\<lambda>p. p \<in> parents_of a m) [0..<n]) = parents_of a m"
proof -
  have "p < n" if "p \<in> parents_of a m" for p
    using parents_lt_max_actual [OF assms(1,2) that] assms(3) by simp
  then show ?thesis by auto
qed

lemma scanned_parents_ge:
  assumes "0 < a" "level_inv st"
  shows "- ((- (int (Max (level_map st)) + 1)) div a) \<le> int (scanned_parents a fn st)"
    and "0 < scanned_parents a fn st"
proof -
  let ?mp = "- ((- (int (Max (level_map st)) + 1)) div a)"
  let ?tp = "- ((- theoretical_siblings st) div a)"
  have "int (Max (level_map st)) + 1 \<le> theoretical_siblings st"
    using assms(2) by (simp add: level_inv_def)
  then have le: "?mp \<le> ?tp" by (rule ceil_div_mono [OF assms(1)])
  have "0 \<le> int (Max (level_map st)) div a"
    using assms(1) by (simp add: pos_imp_zdiv_nonneg_iff)
  then have pos: "0 < ?mp" using ceil_gt_div [OF assms(1), of "int (Max (level_map st))"] by linarith
  show "?mp \<le> int (scanned_parents a fn st)"
    using le pos by (simp add: scanned_parents_def)
  then show "0 < scanned_parents a fn st" using pos by linarith
qed

lemma level_body_eq:
  assumes a: "0 < a" and inv: "level_inv st"
  shows "level_body a fn st =
           Inr \<lparr>theoretical_siblings = - ((- theoretical_siblings st) div a),
                level_map = parents_of a (level_map st),
                num_hashes = num_hashes st + level_hashes a (level_map st),
                current_level = current_level st + 1,
                loop_p = Some (scanned_parents a fn st - 1)\<rparr>"
proof -
  let ?m = "level_map st" and ?T = "theoretical_siblings st"
  let ?mp = "- ((- (int (Max ?m) + 1)) div a)"
  let ?n = "scanned_parents a fn st"
  let ?P = "\<lambda>p. group_len a ?T ?m p \<noteq> 0"
  have fin: "finite ?m" and ne: "?m \<noteq> {}" using inv by (simp_all add: level_inv_def)
  have bnd: "\<forall>x\<in>?m. int x < ?T" by (rule level_inv_bound [OF inv])
  have P_iff: "?P p \<longleftrightarrow> p \<in> parents_of a ?m" for p
    by (rule present_iff [OF a bnd fin])
  have asrt: "\<forall>p\<in>set [0..<?n]. ?P p \<longrightarrow> int p < ?mp"
    using parents_lt_max_actual [OF a fin] by (simp add: P_iff)
  have n_ge: "?mp \<le> int ?n" and n_pos: "0 < ?n"
    by (rule scanned_parents_ge [OF a inv])+
  have flt: "filter ?P [0..<?n] = filter (\<lambda>p. p \<in> parents_of a ?m) [0..<?n]"
    by (simp add: P_iff)
  have set_eq: "set (filter ?P [0..<?n]) = parents_of a ?m"
    unfolding flt by (rule filter_upt_parents [OF a fin n_ge])
  have "(\<Sum>p\<leftarrow>filter ?P [0..<?n]. a - group_len a ?T ?m p)
          = (\<Sum>p\<in>set (filter ?P [0..<?n]). a - group_len a ?T ?m p)"
    by (rule sum_list_distinct_conv_sum_set) simp
  also have "\<dots> = level_hashes a ?m"
    unfolding set_eq level_hashes_def by (simp add: group_len_eq [OF a bnd])
  finally have sum_eq:
    "(\<Sum>p\<leftarrow>filter ?P [0..<?n]. a - group_len a ?T ?m p) = level_hashes a ?m" .
  have loop: "for_parents a ?T ?m ?mp [0..<?n] ([], num_hashes st) =
          Inr (filter ?P [0..<?n], num_hashes st + level_hashes a ?m)"
    using for_parents_filter [OF asrt, of "([], num_hashes st)"] sum_eq by simp
  have rng: "py_range (if fn \<noteq> None then - ((- ?T) div a) else ?mp) = [0..<?n]"
    by (simp add: py_range_def scanned_parents_def)
  have nonempty: "[0..<?n] \<noteq> []" using n_pos by simp
  have lst: "last [0..<?n] = ?n - 1"
    using n_pos by (metis Suc_diff_1 last_upt lessI)
  have r1: "rb_max ?m = Inr (Max ?m)" using ne by (simp add: rb_max_def)
  have r2: "ceil_div (int (Max ?m) + 1) a = Inr ?mp"
    using a by (simp add: ceil_div_def)
  have r3: "ceil_div ?T a = Inr (- ((- ?T) div a))"
    using a by (simp add: ceil_div_def)
  show ?thesis
    unfolding level_body_def r1 r2 r3 sum.case Let_def rng loop fst_conv snd_conv
      RoaringBitmap_def set_eq lst
    using nonempty by simp
qed

lemma parents_of_finite: "finite m \<Longrightarrow> finite (parents_of a m)"
  by (simp add: parents_of_def)

lemma parents_of_nonempty: "m \<noteq> {} \<Longrightarrow> parents_of a m \<noteq> {}"
  by (simp add: parents_of_def)

lemma parents_of_card_le: "finite m \<Longrightarrow> card (parents_of a m) \<le> card m"
  by (simp add: parents_of_def card_image_le)

lemma siblings_present_card_le:
  assumes "0 < a"
  shows "int (card (siblings_present a m p)) \<le> a"
proof -
  have sub: "int ` siblings_present a m p \<subseteq> {int p * a ..< (int p + 1) * a}"
    using assms by (auto simp: siblings_present_def div_eq_iff_range)
  have "card (siblings_present a m p) = card (int ` siblings_present a m p)"
    by (simp add: card_image)
  also have "\<dots> \<le> card {int p * a ..< (int p + 1) * a}"
    by (rule card_mono [OF _ sub]) simp
  also have "\<dots> = nat a" by (simp add: algebra_simps)
  finally show ?thesis using assms by simp
qed

lemma siblings_present_card_pos:
  assumes "0 < a" "finite m" "p \<in> parents_of a m"
  shows "0 < card (siblings_present a m p)"
  using siblings_present_nonempty_iff [OF assms(1), of m p] assms(2,3)
  by (simp add: card_gt_0_iff siblings_present_finite)

lemma card_by_parents:
  assumes "0 < a" "finite m"
  shows "card m = (\<Sum>p\<in>parents_of a m. card (siblings_present a m p))"
proof -
  have un: "m = (\<Union>p\<in>parents_of a m. siblings_present a m p)"
  proof
    show "m \<subseteq> (\<Union>p\<in>parents_of a m. siblings_present a m p)"
    proof
      fix x assume x: "x \<in> m"
      have "0 \<le> int x div a" using assms(1) by (simp add: pos_imp_zdiv_nonneg_iff)
      then have "x \<in> siblings_present a m (nat (int x div a))"
        using x by (simp add: siblings_present_def)
      moreover have "nat (int x div a) \<in> parents_of a m"
        using x by (simp add: parents_of_def)
      ultimately show "x \<in> (\<Union>p\<in>parents_of a m. siblings_present a m p)" by blast
    qed
    show "(\<Union>p\<in>parents_of a m. siblings_present a m p) \<subseteq> m"
      by (auto simp: siblings_present_def)
  qed
  have "card (\<Union>p\<in>parents_of a m. siblings_present a m p)
          = (\<Sum>p\<in>parents_of a m. card (siblings_present a m p))"
  proof (rule card_UN_disjoint)
    show "finite (parents_of a m)" by (rule parents_of_finite [OF assms(2)])
    show "\<forall>p\<in>parents_of a m. finite (siblings_present a m p)"
      by (simp add: siblings_present_finite [OF assms(2)])
    show "\<forall>p\<in>parents_of a m. \<forall>q\<in>parents_of a m. p \<noteq> q \<longrightarrow>
            siblings_present a m p \<inter> siblings_present a m q = {}"
      by (auto simp: siblings_present_def)
  qed
  with un show ?thesis by simp
qed

lemma level_hashes_closed:
  assumes "0 < a" "finite m"
  shows "level_hashes a m = a * int (card (parents_of a m)) - int (card m)"
proof -
  have "level_hashes a m
          = (\<Sum>p\<in>parents_of a m. a) - (\<Sum>p\<in>parents_of a m. int (card (siblings_present a m p)))"
    by (simp add: level_hashes_def sum_subtractf)
  also have "(\<Sum>p\<in>parents_of a m. int (card (siblings_present a m p))) = int (card m)"
    by (simp add: card_by_parents [OF assms])
  finally show ?thesis by (simp add: mult.commute)
qed

lemma card_le_arity_parents:
  assumes "0 < a" "finite m"
  shows "int (card m) \<le> a * int (card (parents_of a m))"
proof -
  have "int (card m) = (\<Sum>p\<in>parents_of a m. int (card (siblings_present a m p)))"
    by (simp add: card_by_parents [OF assms])
  also have "\<dots> \<le> (\<Sum>p\<in>parents_of a m. a)"
    by (rule sum_mono) (rule siblings_present_card_le [OF assms(1)])
  finally show ?thesis by (simp add: mult.commute)
qed

lemma level_hashes_nonneg:
  assumes "0 < a" "finite m"
  shows "0 \<le> level_hashes a m"
  using card_le_arity_parents [OF assms] by (simp add: level_hashes_closed [OF assms])

lemma level_hashes_le:
  assumes "0 < a" "finite m"
  shows "level_hashes a m \<le> (a - 1) * int (card (parents_of a m))"
proof -
  have "int (card (parents_of a m)) \<le> int (card m)"
    using parents_of_card_le [OF assms(2)] by simp
  then show ?thesis
    by (simp add: level_hashes_closed [OF assms] algebra_simps)
qed

lemma parents_of_Max_lt:
  assumes "0 < a" "finite m" "m \<noteq> {}" "int (Max m) < T"
  shows "int (Max (parents_of a m)) < - ((- T) div a)"
proof -
  have "Max (parents_of a m) \<in> parents_of a m"
    by (rule Max_in [OF parents_of_finite [OF assms(2)] parents_of_nonempty [OF assms(3)]])
  then have "int (Max (parents_of a m)) < - ((- (int (Max m) + 1)) div a)"
    by (rule parents_lt_max_actual [OF assms(1,2)])
  also have "\<dots> \<le> - ((- T) div a)"
    by (rule ceil_div_mono [OF assms(1)]) (use assms(4) in simp)
  finally show ?thesis .
qed

lemma ceil_div_less:
  fixes a T :: int
  assumes "2 \<le> a" "a \<le> T"
  shows "- ((- T) div a) < T" and "0 < - ((- T) div a)"
proof -
  have "- T < (- T) div a * a + a"
    using assms(1) by (smt (verit) div_mult_mod_eq pos_mod_bound)
  then have "- ((- T) div a) * a < T + a" by simp
  moreover have "T + a \<le> T * a"
  proof -
    have "0 \<le> (T - 1) * (a - 1) - 1" using assms
      by (smt (verit) mult_le_cancel_left_pos mult.commute mult_cancel_left1)
    then show ?thesis by (simp add: algebra_simps)
  qed
  ultimately have "- ((- T) div a) * a < T * a" by linarith
  then show "- ((- T) div a) < T"
    using assms(1) mult_less_cancel_right_pos [of a "- ((- T) div a)" T] by simp
  have "(- T) div a < 0" using assms by (simp add: pos_imp_zdiv_neg_iff)
  then show "0 < - ((- T) div a)" by simp
qed

lemma ceil_div_power_le:
  fixes a T :: int
  assumes "0 < a" "T \<le> a ^ Suc k"
  shows "- ((- T) div a) \<le> a ^ k"
proof -
  have "(- (a ^ k * a)) div a \<le> (- T) div a"
    using assms by (intro zdiv_mono1) (simp_all add: mult.commute)
  moreover have "(- (a ^ k * a)) div a = - (a ^ k)"
    using assms(1) by (metis less_irrefl minus_mult_left nonzero_mult_div_cancel_right)
  ultimately show ?thesis by simp
qed

lemma level_body_next:
  "0 < a \<Longrightarrow> level_inv st \<Longrightarrow> level_body a fn st = Inr (next_level a fn st)"
  unfolding next_level_def by (rule level_body_eq)

lemma next_level_inv:
  assumes "0 < a" "level_inv st"
  shows "level_inv (next_level a fn st)"
  using assms parents_of_Max_lt [of a "level_map st" "theoretical_siblings st"]
  by (simp add: level_inv_def next_level_def parents_of_finite parents_of_nonempty)

lemma level_body_width:
  assumes "level_body a fn st = Inr st'"
  shows "a \<noteq> 0 \<and> theoretical_siblings st' = - ((- theoretical_siblings st) div a)"
  using assms
  by (auto simp: level_body_def ceil_div_def Let_def split: sum.splits if_splits)

lemma while_levels_total:
  assumes "2 \<le> a"
  shows "\<exists>r. while_levels a fn st = Some r"
proof (induction "nat (theoretical_siblings st)" arbitrary: st rule: less_induct)
  case less
  show ?case
  proof (cases "a \<le> theoretical_siblings st")
    case False
    then show ?thesis by (subst while_levels.simps) simp
  next
    case True
    show ?thesis
    proof (cases "level_body a fn st")
      case (Inl e)
      with True show ?thesis by (subst while_levels.simps) simp
    next
      case (Inr st')
      have "theoretical_siblings st' = - ((- theoretical_siblings st) div a)"
        using level_body_width [OF Inr] by simp
      then have "theoretical_siblings st' < theoretical_siblings st"
        using ceil_div_less(1) [OF assms True] by simp
      then have "nat (theoretical_siblings st') < nat (theoretical_siblings st)"
        using assms True by simp
      then obtain r where "while_levels a fn st' = Some r"
        using less by blast
      with True Inr show ?thesis by (subst while_levels.simps) simp
    qed
  qed
qed


lemma while_levels_rule:
  assumes a: "2 \<le> a" and inv: "level_inv st" and P: "P st"
    and step: "\<And>s. level_inv s \<Longrightarrow> P s \<Longrightarrow> a \<le> theoretical_siblings s \<Longrightarrow> P (next_level a fn s)"
  shows "\<exists>st'. while_levels a fn st = Some (Inr st') \<and> level_inv st' \<and> P st' \<and>
               theoretical_siblings st' < a"
  using inv P
proof (induction "nat (theoretical_siblings st)" arbitrary: st rule: less_induct)
  case less
  have a0: "0 < a" using a by simp
  show ?case
  proof (cases "a \<le> theoretical_siblings st")
    case False
    then have "while_levels a fn st = Some (Inr st)"
      by (subst while_levels.simps) simp
    with False less.prems show ?thesis by simp
  next
    case True
    let ?s = "next_level a fn st"
    have body: "level_body a fn st = Inr ?s"
      by (rule level_body_next [OF a0 less.prems(1)])
    have "theoretical_siblings ?s < theoretical_siblings st"
      using ceil_div_less(1) [OF a True] by (simp add: next_level_def)
    then have lt: "nat (theoretical_siblings ?s) < nat (theoretical_siblings st)"
      using a True by simp
    have "\<exists>st'. while_levels a fn ?s = Some (Inr st') \<and> level_inv st' \<and> P st' \<and>
               theoretical_siblings st' < a"
      by (rule less.hyps [OF lt next_level_inv [OF a0 less.prems(1)]
            step [OF less.prems(1) less.prems(2) True]])
    moreover have "while_levels a fn st = while_levels a fn ?s"
      using True body by (subst while_levels.simps) simp
    ultimately show ?thesis by simp
  qed
qed

lemma levels_power:
  assumes "2 \<le> a" "1 \<le> N"
  shows "N \<le> a ^ levels a N"
proof -
  let ?x = "log (of_int a) (of_int N)"
  have a1: "1 < (of_int a :: real)" using assms(1) by simp
  have N0: "0 < (of_int N :: real)" using assms(2) by simp
  have "0 \<le> ?x" using a1 assms(2) by (simp add: zero_le_log_cancel_iff)
  then have "0 \<le> \<lceil>?x\<rceil>" by linarith
  then have L: "real (levels a N) = of_int \<lceil>?x\<rceil>" by (simp add: levels_def)
  have "of_int N = (of_int a :: real) powr ?x"
    using a1 N0 by simp
  also have "\<dots> \<le> of_int a powr real (levels a N)"
    using a1 by (simp add: L powr_mono)
  also have "\<dots> = of_int a ^ levels a N"
    using a1 by (simp add: powr_realpow)
  finally have "(of_int N :: real) \<le> of_int (a ^ levels a N)" by simp
  then show ?thesis by (simp only: of_int_le_iff)
qed

lemma levels_least:
  assumes "2 \<le> a" "1 \<le> N"
  shows "N \<le> a ^ L \<longleftrightarrow> levels a N \<le> L"
proof
  assume h: "N \<le> a ^ L"
  have a1: "1 < (of_int a :: real)" using assms(1) by simp
  have N0: "0 < (of_int N :: real)" using assms(2) by simp
  have "(of_int N :: real) \<le> of_int (a ^ L)" using h by (simp only: of_int_le_iff)
  then have "(of_int N :: real) \<le> of_int a ^ L" by simp
  then have "log (of_int a) (of_int N) \<le> log (of_int a) (of_int a ^ L)"
    by (rule log_mono [OF a1 N0])
  also have "\<dots> = real L" using a1 by simp
  finally have "log (of_int a) (of_int N) \<le> real L" .
  then show "levels a N \<le> L" by (simp add: levels_def)
next
  assume "levels a N \<le> L"
  then have "a ^ levels a N \<le> a ^ L"
    using assms(1) by (intro power_increasing) simp_all
  with levels_power [OF assms] show "N \<le> a ^ L" by linarith
qed

lemma levels_2_4: "levels 2 4 = 2"
proof (rule antisym)
  show "levels 2 4 \<le> 2"
    using levels_least [of 2 4 2] by simp
  have "\<not> levels 2 4 \<le> 1"
    using levels_least [of 2 4 1] by simp
  then show "2 \<le> levels 2 4" by simp
qed

lemma while_levels_run_levels:
  assumes "2 \<le> a"
  shows "\<exists>k. while_levels a fn st = Some (run_levels k a fn st)"
proof (induction "nat (theoretical_siblings st)" arbitrary: st rule: less_induct)
  case less
  show ?case
  proof (cases "a \<le> theoretical_siblings st")
    case False
    then have "while_levels a fn st = Some (run_levels 0 a fn st)"
      by (subst while_levels.simps) simp
    then show ?thesis ..
  next
    case True
    show ?thesis
    proof (cases "level_body a fn st")
      case (Inl e)
      with True have "while_levels a fn st = Some (run_levels (Suc 0) a fn st)"
        by (subst while_levels.simps) simp
      then show ?thesis ..
    next
      case (Inr s1)
      have "theoretical_siblings s1 = - ((- theoretical_siblings st) div a)"
        using level_body_width [OF Inr] by simp
      then have "theoretical_siblings s1 < theoretical_siblings st"
        using ceil_div_less(1) [OF assms True] by simp
      then have lt: "nat (theoretical_siblings s1) < nat (theoretical_siblings st)"
        using assms True by simp
      obtain k where "while_levels a fn s1 = Some (run_levels k a fn s1)"
        using less [OF lt] by blast
      with True Inr have "while_levels a fn st = Some (run_levels (Suc k) a fn st)"
        by (subst while_levels.simps) simp
      then show ?thesis ..
    qed
  qed
qed

lemma run_levels_inv:
  assumes "0 < a" "level_inv st"
  shows "\<exists>st'. run_levels k a fn st = Inr st' \<and> level_inv st'"
  using assms(2)
proof (induction k arbitrary: st)
  case 0
  then show ?case by simp
next
  case (Suc k)
  show ?case
  proof (cases "a \<le> theoretical_siblings st")
    case False
    with Suc.prems show ?thesis by simp
  next
    case True
    have "run_levels (Suc k) a fn st = run_levels k a fn (next_level a fn st)"
      using True level_body_next [OF assms(1) Suc.prems] by simp
    with Suc.IH [OF next_level_inv [OF assms(1) Suc.prems]] show ?thesis by simp
  qed
qed

lemma same_levels_inv: "same_levels s1 s2 \<Longrightarrow> level_inv s1 \<Longrightarrow> level_inv s2"
  by (simp add: same_levels_def observable_def level_inv_def)

lemma same_levels_next:
  "same_levels s1 s2 \<Longrightarrow> same_levels (next_level a f1 s1) (next_level a f2 s2)"
  by (simp add: same_levels_def observable_def next_level_def)

lemma while_levels_same:
  assumes a: "2 \<le> a"
  shows "level_inv s1 \<Longrightarrow> same_levels s1 s2 \<Longrightarrow>
         \<exists>r1 r2. while_levels a f1 s1 = Some (Inr r1) \<and> while_levels a f2 s2 = Some (Inr r2) \<and>
                 same_levels r1 r2"
proof (induction "nat (theoretical_siblings s1)" arbitrary: s1 s2 rule: less_induct)
  case less
  have a0: "0 < a" using a by simp
  have inv2: "level_inv s2" by (rule same_levels_inv [OF less.prems(2,1)])
  have T: "theoretical_siblings s2 = theoretical_siblings s1"
    using less.prems(2) by (simp add: same_levels_def observable_def)
  show ?case
  proof (cases "a \<le> theoretical_siblings s1")
    case False
    then have "while_levels a f1 s1 = Some (Inr s1)" "while_levels a f2 s2 = Some (Inr s2)"
      using T by (subst while_levels.simps, simp)+
    with less.prems(2) show ?thesis by simp
  next
    case True
    let ?n1 = "next_level a f1 s1" and ?n2 = "next_level a f2 s2"
    have "theoretical_siblings ?n1 < theoretical_siblings s1"
      using ceil_div_less(1) [OF a True] by (simp add: next_level_def)
    then have lt: "nat (theoretical_siblings ?n1) < nat (theoretical_siblings s1)"
      using a True by simp
    have 1: "while_levels a f1 s1 = while_levels a f1 ?n1"
      using True level_body_next [OF a0 less.prems(1)] by (subst while_levels.simps) simp
    have 2: "while_levels a f2 s2 = while_levels a f2 ?n2"
      using True T level_body_next [OF a0 inv2] by (subst while_levels.simps) simp
    show ?thesis
      unfolding 1 2
      by (rule less.hyps [OF lt next_level_inv [OF a0 less.prems(1)]
            same_levels_next [OF less.prems(2)]])
  qed
qed

lemma run_levels_same:
  assumes a0: "0 < a"
  shows "level_inv s1 \<Longrightarrow> same_levels s1 s2 \<Longrightarrow>
         \<exists>r1 r2. run_levels k a f1 s1 = Inr r1 \<and> run_levels k a f2 s2 = Inr r2 \<and>
                 same_levels r1 r2"
proof (induction k arbitrary: s1 s2)
  case 0
  then show ?case by simp
next
  case (Suc k)
  have inv2: "level_inv s2" by (rule same_levels_inv [OF Suc.prems(2,1)])
  have T: "theoretical_siblings s2 = theoretical_siblings s1"
    using Suc.prems(2) by (simp add: same_levels_def observable_def)
  show ?case
  proof (cases "a \<le> theoretical_siblings s1")
    case False
    with T Suc.prems(2) show ?thesis by simp
  next
    case True
    have 1: "run_levels (Suc k) a f1 s1 = run_levels k a f1 (next_level a f1 s1)"
      using True level_body_next [OF a0 Suc.prems(1)] by simp
    have 2: "run_levels (Suc k) a f2 s2 = run_levels k a f2 (next_level a f2 s2)"
      using True T level_body_next [OF a0 inv2] by simp
    show ?thesis
      unfolding 1 2
      by (rule Suc.IH [OF next_level_inv [OF a0 Suc.prems(1)]
            same_levels_next [OF Suc.prems(2)]])
  qed
qed

lemma initial_state_inv:
  "finite S \<Longrightarrow> S \<noteq> {} \<Longrightarrow> int (Max S) < N \<Longrightarrow> level_inv (initial_state S N)"
  by (simp add: level_inv_def initial_state_def)

lemma rb_clamp_empty: "rb_clamp {} start stop = {}"
  by (simp add: rb_clamp_def)

lemma rb_clamp_insert:
  "rb_clamp (insert x m) start stop =
     (if start \<le> int x \<and> int x < stop then insert x (rb_clamp m start stop)
      else rb_clamp m start stop)"
  by (auto simp: rb_clamp_def)

lemmas merklize_eval =
  merklize_def num_levels_error_def rb_max_def initial_state_def while_levels.simps
  level_body_def ceil_div_def py_range_def check_parent_def rb_clamp_empty rb_clamp_insert
  rb_len_def RoaringBitmap_def Let_def upt_conv_Cons

section \<open>The tree hash estimator on concrete inputs\<close>

text \<open>
  C3: with \<open>arity = 2\<close> and \<open>max_theoretical_chunks = 4\<close>, \<^verbatim>\<open>merklize\<close> returns 2
  on the chunk set \<open>{0}\<close> and 1 on the chunk set \<open>{0, 1}\<close>.
\<close>

theorem merklize_scenarios:
  "merklize {0} 2 4 None = Some (Inr 2) \<and> merklize {0, 1} 2 4 None = Some (Inr 1)"
  by (simp add: merklize_eval)

lemma while_levels_skip:
  "theoretical_siblings st < a \<Longrightarrow> while_levels a fn st = Some (Inr st)"
  by (subst while_levels.simps) simp

section \<open>The root label when no level is processed\<close>

text \<open>
  C10: for a non-empty chunk set whose maximum is below \<open>max_theoretical_chunks\<close> (here
  \<open>N\<close>), if \<open>max_theoretical_chunks < arity\<close> then the body of the \<^verbatim>\<open>while\<close> loop never
  runs, the variable \<^verbatim>\<open>p\<close> stays unbound, and \<^verbatim>\<open>merklize\<close> raises \<^verbatim>\<open>NameError\<close>
  when it builds the label of the root instead of returning 0, with or without a file
  name.
\<close>

theorem merklize_unbound_p:
  assumes "finite chunk_set" "chunk_set \<noteq> {}" "int (Max chunk_set) < N" "N < arity"
  shows "while_levels arity filename (initial_state chunk_set N)
           = Some (Inr (initial_state chunk_set N)) \<and>
         merklize chunk_set arity N filename = Some (Inl NameError)"
proof -
  have N: "0 < N" using assms(3) by linarith
  have lp: "while_levels arity filename (initial_state chunk_set N)
              = Some (Inr (initial_state chunk_set N))"
    using assms(4) by (intro while_levels_skip) (simp add: initial_state_def)
  have "merklize chunk_set arity N filename = Some (Inl NameError)"
    using assms N
    by (simp add: merklize_def num_levels_error_def rb_max_def lp)
       (simp add: initial_state_def)
  with lp show ?thesis by simp
qed

theorem merklize_unbound_p_witness:
  "finite {0::nat} \<and> {0::nat} \<noteq> {} \<and> int (Max {0}) < 1 \<and> (1::int) < 2 \<and>
   merklize {0} 2 1 None = Some (Inl NameError)"
  using merklize_unbound_p [of "{0}" 1 2 None] by simp

lemma merklize_result:
  assumes "2 \<le> a" "finite S" "S \<noteq> {}" "int (Max S) < N"
    and "while_levels a fn (initial_state S N) = Some (Inr st)"
  shows "merklize S a N fn =
           (case loop_p st of None \<Rightarrow> Some (Inl NameError) | Some p \<Rightarrow> Some (Inr (num_hashes st)))"
proof -
  have "0 < N" using assms(4) by linarith
  then show ?thesis
    using assms by (simp add: merklize_def num_levels_error_def rb_max_def)
qed

lemma merklize_not_None:
  assumes "2 \<le> a"
  shows "merklize S a N fn \<noteq> None"
proof -
  obtain r where "while_levels a fn (initial_state S N) = Some r"
    using while_levels_total [OF assms] by blast
  then show ?thesis
    by (auto simp: merklize_def split: option.splits sum.splits)
qed

lemma merklize_returns_total:
  assumes "merklize S a N fn = Some (Inr r)"
  shows "\<exists>st. while_levels a fn (initial_state S N) = Some (Inr st) \<and> r = num_hashes st"
  using assms
  by (auto simp: merklize_def split: option.splits sum.splits if_splits)

lemma while_levels_bound_p:
  assumes a: "2 \<le> a" and inv: "level_inv st"
    and p: "loop_p st \<noteq> None \<or> a \<le> theoretical_siblings st"
  shows "\<exists>st' q. while_levels a fn st = Some (Inr st') \<and> loop_p st' = Some q"
proof -
  have "\<exists>st'. while_levels a fn st = Some (Inr st') \<and> level_inv st' \<and>
          (loop_p st' \<noteq> None \<or> a \<le> theoretical_siblings st') \<and>
          theoretical_siblings st' < a"
    by (rule while_levels_rule [OF a inv, where P = "\<lambda>s. loop_p s \<noteq> None \<or> a \<le> theoretical_siblings s"])
       (use p in \<open>simp_all add: next_level_def\<close>)
  then show ?thesis by auto
qed

lemma merklize_returns:
  assumes "2 \<le> a" "a \<le> N" "finite S" "S \<noteq> {}" "int (Max S) < N"
  shows "\<exists>r. merklize S a N fn = Some (Inr r)"
proof -
  have inv: "level_inv (initial_state S N)"
    by (rule initial_state_inv [OF assms(3,4,5)])
  have "a \<le> theoretical_siblings (initial_state S N)"
    using assms(2) by (simp add: initial_state_def)
  then obtain st q where w: "while_levels a fn (initial_state S N) = Some (Inr st)"
      and q: "loop_p st = Some q"
    using while_levels_bound_p [OF assms(1) inv, of fn] by blast
  show ?thesis
    by (simp add: merklize_result [OF assms(1,3,4,5) w] q)
qed


section \<open>Termination of the level loop\<close>


lemma level_body_ex1:
  "level_body 2 None (initial_state {0} 4) =
     Inr \<lparr>theoretical_siblings = 2, level_map = {0}, num_hashes = 1, current_level = 1,
          loop_p = Some 0\<rparr>"
  by (simp add: merklize_eval)




section \<open>When the estimator fails\<close>

lemma merklize_empty:
  assumes "2 \<le> a" "1 \<le> N"
  shows "merklize {} a N fn = Some (Inl EmptyBitmapError)"
  using assms by (simp add: merklize_def num_levels_error_def rb_max_def)

lemma merklize_assert:
  assumes "2 \<le> a" "1 \<le> N" "S \<noteq> {}" "N \<le> int (Max S)"
  shows "merklize S a N fn = Some (Inl AssertionError)"
  using assms by (simp add: merklize_def num_levels_error_def rb_max_def)

text \<open>
  C1, as amended: for every \<open>arity \<ge> 2\<close> and every \<open>max_theoretical_chunks \<ge> arity\<close>,
  \<^verbatim>\<open>merklize\<close> fails if and only if the chunk set is empty or its maximum is not below
  \<open>max_theoretical_chunks\<close>, and returns a number otherwise; on the empty chunk set it
  fails, because the maximum of the bitmap is taken before anything else is looked at.
\<close>

theorem merklize_fails_iff:
  assumes "2 \<le> arity" "arity \<le> max_theoretical_chunks" "finite chunk_set"
  shows "((\<exists>e. merklize chunk_set arity max_theoretical_chunks filename = Some (Inl e)) \<longleftrightarrow>
            (chunk_set = {} \<or> max_theoretical_chunks \<le> int (Max chunk_set))) \<and>
         ((\<exists>r. merklize chunk_set arity max_theoretical_chunks filename = Some (Inr r)) \<longleftrightarrow>
            (chunk_set \<noteq> {} \<and> int (Max chunk_set) < max_theoretical_chunks)) \<and>
         merklize {} arity max_theoretical_chunks filename = Some (Inl EmptyBitmapError)"
proof -
  have N: "1 \<le> max_theoretical_chunks" using assms(1,2) by linarith
  show ?thesis
  proof (cases "chunk_set = {}")
    case True
    then show ?thesis using merklize_empty [OF assms(1) N, of filename] by simp
  next
    case ne: False
    show ?thesis
    proof (cases "int (Max chunk_set) < max_theoretical_chunks")
      case True
      obtain r where "merklize chunk_set arity max_theoretical_chunks filename = Some (Inr r)"
        using merklize_returns [OF assms(1,2,3) ne True, of filename] by blast
      with ne True show ?thesis
        using merklize_empty [OF assms(1) N, of filename] by simp
    next
      case False
      then have "merklize chunk_set arity max_theoretical_chunks filename = Some (Inl AssertionError)"
        using merklize_assert [OF assms(1) N ne, of filename] by simp
      with ne False show ?thesis
        using merklize_empty [OF assms(1) N, of filename] by simp
    qed
  qed
qed

theorem merklize_fails_iff_witness:
  "(2::int) \<le> 2 \<and> (2::int) \<le> 4 \<and> finite {0::nat} \<and>
   \<not> (\<exists>e. merklize {0} 2 4 None = Some (Inl e)) \<and>
   {0::nat} \<noteq> {} \<and> int (Max {0}) < 4 \<and>
   (\<exists>r. merklize {0} 2 4 None = Some (Inr r)) \<and>
   merklize {} 2 4 None = Some (Inl EmptyBitmapError)"
  using merklize_fails_iff [of 2 4 "{0}" None] by simp

theorem merklize_empty_counterexample:
  "merklize {} 2 4 None = Some (Inl EmptyBitmapError) \<and>
   merklize {} 2 4 None \<noteq> Some (Inr 0) \<and>
   merklize {0} 2 1 None = Some (Inl NameError)"
  by (simp add: merklize_def num_levels_error_def rb_max_def initial_state_def
        while_levels.simps)

section \<open>Bounds on the number of missing hashes\<close>

lemma hashes_bounded_step:
  assumes a: "2 \<le> a" and inv: "level_inv s" and hb: "hashes_bounded a L c s"
    and guard: "a \<le> theoretical_siblings s"
  shows "hashes_bounded a L c (next_level a fn s)"
proof -
  have a0: "0 < a" using a by simp
  have fin: "finite (level_map s)" using inv by (simp add: level_inv_def)
  from hb obtain j where j: "j \<le> L" "theoretical_siblings s \<le> a ^ (L - j)"
      "0 \<le> num_hashes s" "num_hashes s \<le> int c * (a - 1) * int j"
      "card (level_map s) \<le> c"
    by (auto simp: hashes_bounded_def)
  have "L - j \<noteq> 0"
  proof
    assume "L - j = 0"
    with j(2) have "theoretical_siblings s \<le> 1" by simp
    with guard a show False by simp
  qed
  then have Lj: "L - j = Suc (L - Suc j)" and j1: "Suc j \<le> L" by simp_all
  have w: "- ((- theoretical_siblings s) div a) \<le> a ^ (L - Suc j)"
    by (rule ceil_div_power_le [OF a0]) (use j(2) Lj in simp)
  have pc: "card (parents_of a (level_map s)) \<le> c"
    using parents_of_card_le [OF fin, of a] j(5) by simp
  have lh0: "0 \<le> level_hashes a (level_map s)"
    by (rule level_hashes_nonneg [OF a0 fin])
  have "level_hashes a (level_map s) \<le> (a - 1) * int (card (parents_of a (level_map s)))"
    by (rule level_hashes_le [OF a0 fin])
  also have "\<dots> \<le> (a - 1) * int c"
    using pc a by (intro mult_left_mono) simp_all
  finally have lh: "level_hashes a (level_map s) \<le> int c * (a - 1)"
    by (simp add: mult.commute)
  have "num_hashes s + level_hashes a (level_map s) \<le> int c * (a - 1) * int (Suc j)"
    using j(4) lh by (simp add: algebra_simps)
  with j1 w pc lh0 j(3) show ?thesis
    unfolding hashes_bounded_def next_level_def
    by (intro exI [of _ "Suc j"]) simp
qed

lemma while_levels_bounded:
  assumes a: "2 \<le> a" and fin: "finite S" and ne: "S \<noteq> {}" and mx: "int (Max S) < N"
    and w: "while_levels a fn (initial_state S N) = Some (Inr st)"
  shows "0 \<le> num_hashes st \<and> num_hashes st \<le> int (card S) * (a - 1) * int (levels a N)"
proof -
  have N: "1 \<le> N" using mx by linarith
  have inv: "level_inv (initial_state S N)" by (rule initial_state_inv [OF fin ne mx])
  have init: "hashes_bounded a (levels a N) (card S) (initial_state S N)"
    unfolding hashes_bounded_def
    by (intro exI [of _ 0]) (use levels_power [OF a N] in \<open>simp add: initial_state_def\<close>)
  have "\<exists>st'. while_levels a fn (initial_state S N) = Some (Inr st') \<and> level_inv st' \<and>
          hashes_bounded a (levels a N) (card S) st' \<and> theoretical_siblings st' < a"
    by (rule while_levels_rule [OF a inv, where P = "hashes_bounded a (levels a N) (card S)"])
       (simp_all add: init hashes_bounded_step [OF a])
  with w have "hashes_bounded a (levels a N) (card S) st" by simp
  then obtain j where j: "j \<le> levels a N" "0 \<le> num_hashes st"
      "num_hashes st \<le> int (card S) * (a - 1) * int j"
    by (auto simp: hashes_bounded_def)
  have "int (card S) * (a - 1) * int j \<le> int (card S) * (a - 1) * int (levels a N)"
    using j(1) a by (intro mult_left_mono) simp_all
  with j show ?thesis by linarith
qed

text \<open>
  C4: for every valid input (\<open>arity \<ge> 2\<close>, a non-empty chunk set with maximum below
  \<open>max_theoretical_chunks\<close>) \<^verbatim>\<open>merklize\<close> ends, a number it returns is not negative and is
  at most \<open>card chunk_set * (arity - 1) * levels\<close>, where \<open>levels\<close> is the ceiling of the
  logarithm of \<open>max_theoretical_chunks\<close> to the base \<open>arity\<close>; and it does return a number
  when \<open>max_theoretical_chunks \<ge> arity\<close>.
\<close>

theorem merklize_bounds:
  assumes "2 \<le> arity" "finite chunk_set" "chunk_set \<noteq> {}"
    "int (Max chunk_set) < max_theoretical_chunks"
  shows "merklize chunk_set arity max_theoretical_chunks filename \<noteq> None \<and>
         (\<forall>r. merklize chunk_set arity max_theoretical_chunks filename = Some (Inr r) \<longrightarrow>
              0 \<le> r \<and>
              r \<le> int (card chunk_set) * (arity - 1) * int (levels arity max_theoretical_chunks)) \<and>
         (arity \<le> max_theoretical_chunks \<longrightarrow>
            (\<exists>r. merklize chunk_set arity max_theoretical_chunks filename = Some (Inr r)))"
proof (intro conjI allI impI)
  show "merklize chunk_set arity max_theoretical_chunks filename \<noteq> None"
    by (rule merklize_not_None [OF assms(1)])
next
  fix r assume r: "merklize chunk_set arity max_theoretical_chunks filename = Some (Inr r)"
  then obtain st where
    st: "while_levels arity filename (initial_state chunk_set max_theoretical_chunks) = Some (Inr st)"
    and "r = num_hashes st"
    using merklize_returns_total by blast
  with while_levels_bounded [OF assms st]
  show "0 \<le> r" and "r \<le> int (card chunk_set) * (arity - 1) * int (levels arity max_theoretical_chunks)"
    by simp_all
next
  assume "arity \<le> max_theoretical_chunks"
  then show "\<exists>r. merklize chunk_set arity max_theoretical_chunks filename = Some (Inr r)"
    by (rule merklize_returns [OF assms(1) _ assms(2,3,4)])
qed

lemma merklize_ex1: "merklize {0} 2 4 None = Some (Inr 2)"
  by (simp add: merklize_eval)

theorem merklize_bounds_witness:
  "(2::int) \<le> 2 \<and> finite {0::nat} \<and> {0::nat} \<noteq> {} \<and> int (Max {0}) < 4 \<and>
   merklize {0} 2 4 None = Some (Inr 2) \<and> (2::int) \<le> 4 \<and>
   (0::int) \<le> 2 \<and> (2::int) \<le> int (card {0::nat}) * (2 - 1) * int (levels 2 4) \<and>
   levels 2 4 = 2"
  using merklize_bounds [of 2 "{0}" 4 None] levels_2_4 by (simp add: merklize_ex1)

section \<open>Dense and sparse scans\<close>

lemma same_levels_refl: "same_levels s s"
  by (simp add: same_levels_def)

lemma merklize_same:
  assumes a: "2 \<le> a" and fin: "finite S" and ne: "S \<noteq> {}" and mx: "int (Max S) < N"
  shows "merklize S a N f1 = merklize S a N f2"
proof -
  have inv: "level_inv (initial_state S N)" by (rule initial_state_inv [OF fin ne mx])
  obtain r1 r2 where r1: "while_levels a f1 (initial_state S N) = Some (Inr r1)"
      and r2: "while_levels a f2 (initial_state S N) = Some (Inr r2)"
      and same: "same_levels r1 r2"
    using while_levels_same [OF a inv same_levels_refl, of f1 f2] by blast
  have nh: "num_hashes r1 = num_hashes r2" and p: "loop_p r1 = None \<longleftrightarrow> loop_p r2 = None"
    using same by (simp_all add: same_levels_def observable_def)
  show ?thesis
    unfolding merklize_result [OF a fin ne mx r1] merklize_result [OF a fin ne mx r2]
    using nh p by (auto split: option.splits)
qed

text \<open>
  C7: for every valid input the result of \<^verbatim>\<open>merklize\<close> is the same with a file name (each
  level scans every parent up to \<open>theoretical_parents\<close>) and without one (each level scans
  up to \<open>max_actual_parents\<close>), and after any number \<open>k\<close> of levels both runs have the
  same set of present parents, the same count, the same theoretical width and the same
  level number.
\<close>

theorem observer_equivalence:
  assumes "2 \<le> arity" "finite chunk_set" "chunk_set \<noteq> {}"
    "int (Max chunk_set) < max_theoretical_chunks"
  shows "merklize chunk_set arity max_theoretical_chunks (Some filename)
           = merklize chunk_set arity max_theoretical_chunks None \<and>
         (\<exists>dense sparse.
            run_levels k arity (Some filename) (initial_state chunk_set max_theoretical_chunks)
              = Inr dense \<and>
            run_levels k arity None (initial_state chunk_set max_theoretical_chunks)
              = Inr sparse \<and>
            level_map dense = level_map sparse \<and>
            num_hashes dense = num_hashes sparse \<and>
            theoretical_siblings dense = theoretical_siblings sparse \<and>
            current_level dense = current_level sparse)"
proof -
  have a0: "0 < arity" using assms(1) by simp
  have inv: "level_inv (initial_state chunk_set max_theoretical_chunks)"
    by (rule initial_state_inv [OF assms(2,3,4)])
  obtain dense sparse where
    "run_levels k arity (Some filename) (initial_state chunk_set max_theoretical_chunks) = Inr dense"
    "run_levels k arity None (initial_state chunk_set max_theoretical_chunks) = Inr sparse"
    "same_levels dense sparse"
    using run_levels_same [OF a0 inv same_levels_refl, of k "Some filename" None] by blast
  then show ?thesis
    using merklize_same [OF assms, of "Some filename" None]
    by (simp add: same_levels_def observable_def)
qed

lemma run_levels_ex:
  "run_levels 1 3 None (initial_state {0, 5} 7) =
     Inr \<lparr>theoretical_siblings = 3, level_map = {0, 1}, num_hashes = 4, current_level = 1,
          loop_p = Some 1\<rparr>"
  "run_levels 1 3 (Some ''tree.dot'') (initial_state {0, 5} 7) =
     Inr \<lparr>theoretical_siblings = 3, level_map = {0, 1}, num_hashes = 4, current_level = 1,
          loop_p = Some 2\<rparr>"
  by (simp_all add: merklize_eval insert_commute)

lemma merklize_ex2:
  "merklize {0, 5} 3 7 None = Some (Inr 5)"
  "merklize {0, 5} 3 7 (Some ''tree.dot'') = Some (Inr 5)"
  by (simp_all add: merklize_eval insert_commute)

theorem observer_equivalence_witness:
  "(2::int) \<le> 3 \<and> finite {0::nat, 5} \<and> {0::nat, 5} \<noteq> {} \<and> int (Max {0, 5}) < 7 \<and>
   (merklize {0, 5} 3 7 (Some ''tree.dot'') = merklize {0, 5} 3 7 None \<and>
    (\<exists>dense sparse.
       run_levels 1 3 (Some ''tree.dot'') (initial_state {0, 5} 7) = Inr dense \<and>
       run_levels 1 3 None (initial_state {0, 5} 7) = Inr sparse \<and>
       level_map dense = level_map sparse \<and>
       num_hashes dense = num_hashes sparse \<and>
       theoretical_siblings dense = theoretical_siblings sparse \<and>
       current_level dense = current_level sparse)) \<and>
   merklize {0, 5} 3 7 None = Some (Inr 5)"
proof -
  have h: "(2::int) \<le> 3" "finite {0::nat, 5}" "{0::nat, 5} \<noteq> {}" "int (Max {0, 5}) < 7"
    by simp_all
  note c = observer_equivalence [where arity = 3 and chunk_set = "{0, 5}"
      and max_theoretical_chunks = 7 and k = 1 and filename = "''tree.dot''", OF h]
  from h c merklize_ex2(1) show ?thesis by blast
qed

section \<open>Cardinalities from one level to the next\<close>

text \<open>
  C9, as amended: at every level transition inside \<^verbatim>\<open>merklize\<close> on a valid input, the
  parent-level presence set has at most as many elements as the presence set of the level
  below (and at least that number divided by \<open>arity\<close>).
\<close>

theorem parent_level_card:
  assumes "2 \<le> arity" "finite chunk_set" "chunk_set \<noteq> {}"
    "int (Max chunk_set) < max_theoretical_chunks"
    and "run_levels k arity filename (initial_state chunk_set max_theoretical_chunks) = Inr st"
    and "arity \<le> theoretical_siblings st"
  shows "\<exists>st'. level_body arity filename st = Inr st' \<and>
           card (level_map st') \<le> card (level_map st) \<and>
           int (card (level_map st)) \<le> arity * int (card (level_map st'))"
proof -
  have a0: "0 < arity" using assms(1) by simp
  have "level_inv (initial_state chunk_set max_theoretical_chunks)"
    by (rule initial_state_inv [OF assms(2,3,4)])
  then have inv: "level_inv st"
    using run_levels_inv [OF a0, of _ k filename] assms(5) by fastforce
  then have fin: "finite (level_map st)" by (simp add: level_inv_def)
  have "level_body arity filename st = Inr (next_level arity filename st)"
    by (rule level_body_next [OF a0 inv])
  moreover have "card (level_map (next_level arity filename st)) \<le> card (level_map st)"
    using parents_of_card_le [OF fin] by (simp add: next_level_def)
  moreover have "int (card (level_map st))
                   \<le> arity * int (card (level_map (next_level arity filename st)))"
    using card_le_arity_parents [OF a0 fin] by (simp add: next_level_def)
  ultimately show ?thesis by blast
qed

theorem parent_level_card_witness:
  "(2::int) \<le> 2 \<and> finite {0::nat} \<and> {0::nat} \<noteq> {} \<and> int (Max {0}) < 4 \<and>
   run_levels 0 2 None (initial_state {0} 4) = Inr (initial_state {0} 4) \<and>
   2 \<le> theoretical_siblings (initial_state {0} 4) \<and>
   (\<exists>st'. level_body 2 None (initial_state {0} 4) = Inr st' \<and>
      card (level_map st') \<le> card (level_map (initial_state {0} 4)) \<and>
      int (card (level_map (initial_state {0} 4))) \<le> 2 * int (card (level_map st')))"
proof -
  have h: "(2::int) \<le> 2" "finite {0::nat}" "{0::nat} \<noteq> {}" "int (Max {0}) < 4"
    "run_levels 0 2 None (initial_state {0} 4) = Inr (initial_state {0} 4)"
    "2 \<le> theoretical_siblings (initial_state {0} 4)"
    by (simp_all add: initial_state_def)
  note c = parent_level_card [where arity = 2 and chunk_set = "{0}"
      and max_theoretical_chunks = 4 and k = 0 and filename = None
      and st = "initial_state {0} 4", OF h]
  from h c show ?thesis by blast
qed

theorem parent_level_card_counterexample:
  "level_body 2 None (initial_state {0} 4) =
     Inr \<lparr>theoretical_siblings = 2, level_map = {0}, num_hashes = 1, current_level = 1,
          loop_p = Some 0\<rparr> \<and>
   \<not> real (card {0::nat}) \<le> real (card (level_map (initial_state {0} 4))) / 2 \<and>
   \<not> card {0::nat} \<le> card (level_map (initial_state {0} 4)) div 2"
  by (simp add: level_body_ex1) (simp add: initial_state_def)

section \<open>The chunker\<close>

lemma for_chunks_eq:
  assumes "finite B"
  shows "for_chunks B cs xs acc =
           acc \<union> {c \<in> set xs. rb_clamp B (int c * cs) ((int c + 1) * cs) \<noteq> {}}"
proof (induction xs arbitrary: acc)
  case Nil
  then show ?case by simp
next
  case (Cons c xs)
  have "rb_len (rb_clamp B (int c * cs) ((int c + 1) * cs)) \<noteq> 0
          \<longleftrightarrow> rb_clamp B (int c * cs) ((int c + 1) * cs) \<noteq> {}"
    by (simp add: rb_len_zero_iff rb_clamp_finite [OF assms])
  then show ?case
    by (auto simp: Cons.IH Let_def)
qed

lemma chunk_eq_siblings_present:
  assumes "0 < cs"
  shows "rb_clamp B (int c * cs) ((int c + 1) * cs) = siblings_present cs B c"
  using assms by (auto simp: rb_clamp_iff siblings_present_def div_eq_iff_range)

lemma parents_of_le_max:
  assumes "0 < cs" "finite B" "c \<in> parents_of cs B"
  shows "int c \<le> int (Max B) div cs"
proof -
  from assms(3) obtain b where b: "b \<in> B" "c = nat (int b div cs)"
    by (auto simp: parents_of_def)
  have nn: "0 \<le> int b div cs" using assms(1) by (simp add: pos_imp_zdiv_nonneg_iff)
  have "b \<le> Max B" using b(1) assms(2) by simp
  then have "int b div cs \<le> int (Max B) div cs"
    using assms(1) by (simp add: zdiv_mono1)
  with b(2) nn show ?thesis by simp
qed

lemma py_range_set:
  assumes "0 \<le> n"
  shows "set (py_range (n + 1)) = {c. int c \<le> n}"
  using assms by (auto simp: py_range_def)

lemma for_chunks_parents:
  assumes "0 < cs" "finite B"
  shows "for_chunks B cs (py_range (int (Max B) div cs + 1)) {} = parents_of cs B"
proof -
  have nn: "0 \<le> int (Max B) div cs" using assms(1) by (simp add: pos_imp_zdiv_nonneg_iff)
  have "for_chunks B cs (py_range (int (Max B) div cs + 1)) {}
          = {c. int c \<le> int (Max B) div cs \<and> siblings_present cs B c \<noteq> {}}"
    by (simp add: for_chunks_eq [OF assms(2)] py_range_set [OF nn]
          chunk_eq_siblings_present [OF assms(1)])
  also have "\<dots> = parents_of cs B"
    using parents_of_le_max [OF assms]
    by (auto simp: siblings_present_nonempty_iff [OF assms(1)])
  finally show ?thesis .
qed

lemma parents_of_intersects:
  assumes "0 < cs" "finite B"
  shows "parents_of cs B =
           {c. int c \<le> int (Max B) div cs \<and>
               (\<exists>b\<in>B. int c * cs \<le> int b \<and> int b < (int c + 1) * cs)}"
proof -
  have "c \<in> parents_of cs B \<longleftrightarrow>
          int c \<le> int (Max B) div cs \<and> (\<exists>b\<in>B. int c * cs \<le> int b \<and> int b < (int c + 1) * cs)"
    for c
  proof -
    have "c \<in> parents_of cs B \<longleftrightarrow> siblings_present cs B c \<noteq> {}"
      by (simp add: siblings_present_nonempty_iff [OF assms(1)])
    also have "\<dots> \<longleftrightarrow> (\<exists>b\<in>B. int c * cs \<le> int b \<and> int b < (int c + 1) * cs)"
      using assms(1) by (auto simp: siblings_present_def div_eq_iff_range)
    finally show ?thesis using parents_of_le_max [OF assms, of c] by blast
  qed
  then show ?thesis by blast
qed

lemma chunkmap_general:
  assumes "finite B" "B \<noteq> {}" "2 \<le> cs"
  shows "chunkmap_from_bytemap B cs
           = Inr (for_chunks B cs (py_range (int (Max B) div cs + 1)) {})"
  using assms by (simp add: chunkmap_from_bytemap_def rb_max_def floor_div_def)

lemma chunkmap_one:
  assumes "B \<noteq> {}"
  shows "chunkmap_from_bytemap B 1 = Inr B"
  using assms by (simp add: chunkmap_from_bytemap_def rb_max_def floor_div_def)

lemma parents_of_one: "parents_of 1 B = B"
  by (simp add: parents_of_def)

lemmas chunkmap_eval =
  chunkmap_from_bytemap_def rb_max_def floor_div_def py_range_def upt_conv_Cons
  rb_clamp_empty rb_clamp_insert rb_len_def Let_def insert_commute

lemma chunkmap_ex: "chunkmap_from_bytemap {0, 5, 31, 32} 32 = Inr {0, 1}"
  by (simp add: chunkmap_eval)

text \<open>
  C2: for every non-empty byte set \<open>B\<close> and every \<open>chunk_size \<ge> 2\<close>,
  \<^verbatim>\<open>chunkmap_from_bytemap\<close> runs its loop over exactly the chunk indices from 0 to
  \<open>max B div chunk_size\<close> and returns exactly those of them whose byte range
  \<open>[c * chunk_size, (c + 1) * chunk_size)\<close> meets \<open>B\<close>; for \<open>B = {0, 5, 31, 32}\<close> and
  \<open>chunk_size = 32\<close> the result is \<open>{0, 1}\<close>.
\<close>

theorem chunkmap_general_path:
  assumes "finite B" "B \<noteq> {}" "2 \<le> chunk_size"
  shows "chunkmap_from_bytemap B chunk_size
           = Inr (for_chunks B chunk_size (py_range (int (Max B) div chunk_size + 1)) {}) \<and>
         set (py_range (int (Max B) div chunk_size + 1))
           = {c. int c \<le> int (Max B) div chunk_size} \<and>
         chunkmap_from_bytemap B chunk_size
           = Inr {c. int c \<le> int (Max B) div chunk_size \<and>
                     (\<exists>b\<in>B. int c * chunk_size \<le> int b \<and> int b < (int c + 1) * chunk_size)} \<and>
         chunkmap_from_bytemap {0, 5, 31, 32} 32 = Inr {0, 1}"
proof -
  have cs: "0 < chunk_size" using assms(3) by simp
  have nn: "0 \<le> int (Max B) div chunk_size" using cs by (simp add: pos_imp_zdiv_nonneg_iff)
  have 1: "chunkmap_from_bytemap B chunk_size
           = Inr (for_chunks B chunk_size (py_range (int (Max B) div chunk_size + 1)) {})"
    by (rule chunkmap_general [OF assms])
  have 2: "set (py_range (int (Max B) div chunk_size + 1))
           = {c. int c \<le> int (Max B) div chunk_size}"
    by (rule py_range_set [OF nn])
  have 3: "chunkmap_from_bytemap B chunk_size
           = Inr {c. int c \<le> int (Max B) div chunk_size \<and>
                     (\<exists>b\<in>B. int c * chunk_size \<le> int b \<and> int b < (int c + 1) * chunk_size)}"
    unfolding 1 for_chunks_parents [OF cs assms(1)]
    by (simp only: parents_of_intersects [OF cs assms(1)])
  from 1 2 3 chunkmap_ex show ?thesis by blast
qed

theorem chunkmap_general_path_witness:
  "finite {0::nat, 5, 31, 32} \<and> {0::nat, 5, 31, 32} \<noteq> {} \<and> (2::int) \<le> 32 \<and>
   chunkmap_from_bytemap {0, 5, 31, 32} 32
     = Inr {c. int c \<le> int (Max {0, 5, 31, 32}) div 32 \<and>
               (\<exists>b\<in>{0, 5, 31, 32}. int c * 32 \<le> int b \<and> int b < (int c + 1) * 32)}"
proof -
  have h: "finite {0::nat, 5, 31, 32}" "{0::nat, 5, 31, 32} \<noteq> {}" "(2::int) \<le> 32"
    by simp_all
  note c = chunkmap_general_path [where B = "{0, 5, 31, 32}" and chunk_size = 32, OF h]
  from h c show ?thesis by blast
qed

text \<open>
  C5, as amended: for every non-empty byte set \<open>B\<close>, \<^verbatim>\<open>chunkmap_from_bytemap\<close> with
  \<open>chunk_size = 1\<close> returns \<open>B\<close> itself, which is also what the loop of the general path
  computes for chunk size 1.
\<close>

theorem chunkmap_identity:
  assumes "finite B" "B \<noteq> {}"
  shows "chunkmap_from_bytemap B 1 = Inr B \<and>
         for_chunks B 1 (py_range (int (Max B) div 1 + 1)) {} = B"
  using chunkmap_one [OF assms(2)] for_chunks_parents [of 1 B] assms(1)
  by (simp add: parents_of_one)

theorem chunkmap_identity_witness:
  "finite {0::nat, 5} \<and> {0::nat, 5} \<noteq> {} \<and>
   chunkmap_from_bytemap {0, 5} 1 = Inr {0, 5} \<and>
   for_chunks {0, 5} 1 (py_range (int (Max {0, 5}) div 1 + 1)) {} = {0, 5}"
proof -
  have h: "finite {0::nat, 5}" "{0::nat, 5} \<noteq> {}" by simp_all
  note c = chunkmap_identity [where B = "{0, 5}", OF h]
  from h c show ?thesis by blast
qed

theorem chunkmap_identity_counterexample:
  "chunkmap_from_bytemap {} 1 = Inl EmptyBitmapError \<and> chunkmap_from_bytemap {} 1 \<noteq> Inr {}"
  by (simp add: chunkmap_from_bytemap_def rb_max_def)

text \<open>
  C6: for every non-empty byte set \<open>B\<close> and every chunk size \<open>s \<ge> 1\<close>,
  \<^verbatim>\<open>chunkmap_from_bytemap\<close> returns a chunk set \<open>C\<close> with \<open>card C * s \<ge> card B\<close>, so the
  sanity check of \<^verbatim>\<open>main\<close> on the chunked byte count never reports an error.
\<close>

theorem chunked_bytes_cover:
  assumes "finite B" "B \<noteq> {}" "1 \<le> s"
  shows "\<exists>C. chunkmap_from_bytemap B s = Inr C \<and>
             int (card B) \<le> int (card C) * s \<and> \<not> sanity_check_error B C s"
proof (cases "s = 1")
  case True
  then show ?thesis
    using chunkmap_one [OF assms(2)]
    by (simp add: sanity_check_error_def rb_len_def)
next
  case False
  then have s2: "2 \<le> s" and s0: "0 < s" using assms(3) by simp_all
  have "chunkmap_from_bytemap B s = Inr (parents_of s B)"
    by (simp add: chunkmap_general [OF assms(1,2) s2] for_chunks_parents [OF s0 assms(1)])
  moreover have "int (card B) \<le> int (card (parents_of s B)) * s"
    using card_le_arity_parents [OF s0 assms(1)] by (simp add: mult.commute)
  ultimately show ?thesis
    by (simp add: sanity_check_error_def rb_len_def Let_def)
qed

theorem chunked_bytes_cover_witness:
  "finite {0::nat, 5, 31, 32} \<and> {0::nat, 5, 31, 32} \<noteq> {} \<and> (1::int) \<le> 32 \<and>
   (\<exists>C. chunkmap_from_bytemap {0, 5, 31, 32} 32 = Inr C \<and>
        int (card {0::nat, 5, 31, 32}) \<le> int (card C) * 32 \<and>
        \<not> sanity_check_error {0, 5, 31, 32} C 32)"
proof -
  have h: "finite {0::nat, 5, 31, 32}" "{0::nat, 5, 31, 32} \<noteq> {}" "(1::int) \<le> 32"
    by simp_all
  note c = chunked_bytes_cover [where B = "{0, 5, 31, 32}" and s = 32, OF h]
  from h c show ?thesis by blast
qed

end
